theory Spec2Isabelle
  imports Main
begin

section \<open>The note editor's line model\<close>

text \<open>
  The editor component keeps a note as an array of \<open>EditorLine\<close> objects
  (\<open>interface EditorLine { type; text; checked; indent }\<close>). The field \<open>type\<close> is the
  string union \<open>'text' | 'todo'\<close>; \<open>indent\<close> is a count of nesting levels: the parser
  starts it at 0 and increments it, and the key handlers only ever store
  \<open>Math.min(indent + 1, 3)\<close> or \<open>indent - 1\<close> under the guard \<open>indent > 0\<close>, so it is a
  natural number. The values of \<open>type\<close> are spelt \<open>Text\<close> and \<open>Todo\<close>, the fields
  \<open>type\<close> and \<open>text\<close> are spelt \<open>ltype\<close> and \<open>ltext\<close>.
\<close>

datatype line_type = Text | Todo

record EditorLine =
  ltype :: line_type
  ltext :: string
  checked :: bool
  indent :: nat

subsection \<open>String primitives of the host language\<close>

text \<open>The line break \<open>'\n'\<close> on which the content is split and joined.\<close>

definition nl :: char where
  "nl = CHR 0x0A"

text \<open>
  Strings are lists of characters. The code compares characters with the line break,
  the space and the characters of the two todo prefixes only, and counts them.
  \<open>s.startsWith(p)\<close>:
\<close>

definition startsWith :: "string \<Rightarrow> string \<Rightarrow> bool" where
  "startsWith s p \<longleftrightarrow> take (length p) s = p"

text \<open>
  \<open>s.split('\n')\<close>: the pieces between line breaks; a string without a line break
  (the empty string too) gives one piece. A split is never empty, so the first case
  of the inner match is not reached.
\<close>

fun split_nl :: "string \<Rightarrow> string list" where
  "split_nl [] = [[]]"
| "split_nl (c # cs) =
     (if c = nl then [] # split_nl cs
      else (case split_nl cs of [] \<Rightarrow> [[c]] | p # ps \<Rightarrow> (c # p) # ps))"

text \<open>\<open>pieces.join('\n')\<close>.\<close>

fun join_nl :: "string list \<Rightarrow> string" where
  "join_nl [] = []"
| "join_nl [p] = p"
| "join_nl (p # q # ps) = p @ nl # join_nl (q # ps)"

text \<open>\<open>'  '.repeat(n)\<close>.\<close>

definition spaces :: "nat \<Rightarrow> string" where
  "spaces n = concat (replicate n ''  '')"

subsection \<open>Parser and serializer\<close>

text \<open>
  The loop of \<open>parseContent\<close> that strips two-space markers:
  \<open>while (stripped.startsWith('  ')) { indent++; stripped = stripped.slice(2); }\<close>.
  The result is the pair \<open>(indent, stripped)\<close> at loop exit.
\<close>

fun strip_indent :: "string \<Rightarrow> nat \<times> string" where
  "strip_indent (a # b # cs) =
     (if a = CHR '' '' \<and> b = CHR '' ''
      then (case strip_indent cs of (n, s) \<Rightarrow> (Suc n, s))
      else (0, a # b # cs))"
| "strip_indent cs = (0, cs)"

text \<open>The body of the \<open>map\<close> callback of \<open>parseContent\<close>: one raw line to one record.\<close>

definition parseLine :: "string \<Rightarrow> EditorLine" where
  "parseLine line =
     (case strip_indent line of (ind, stripped) \<Rightarrow>
        if startsWith stripped ''- [x] ''
        then \<lparr>ltype = Todo, ltext = drop 6 stripped, checked = True, indent = ind\<rparr>
        else if startsWith stripped ''- [ ] ''
        then \<lparr>ltype = Todo, ltext = drop 6 stripped, checked = False, indent = ind\<rparr>
        else \<lparr>ltype = Text, ltext = line, checked = False, indent = 0\<rparr>)"

definition parseContent :: "string \<Rightarrow> EditorLine list" where
  "parseContent content =
     (if content = [] then [\<lparr>ltype = Text, ltext = [], checked = False, indent = 0\<rparr>]
      else map parseLine (split_nl content))"

text \<open>The body of the \<open>map\<close> callback of \<open>serializeLines\<close>.\<close>

definition serializeLine :: "EditorLine \<Rightarrow> string" where
  "serializeLine line =
     (if ltype line = Todo
      then spaces (indent line) @ ''- ['' @ (if checked line then ''x'' else '' '') @ ''] ''
             @ ltext line
      else ltext line)"

definition serializeLines :: "EditorLine list \<Rightarrow> string" where
  "serializeLines ls = join_nl (map serializeLine ls)"

section \<open>Checklist propagation\<close>

text \<open>
  Reading a property of \<open>undefined\<close> (an array read past the end gives \<open>undefined\<close>)
  throws a \<open>TypeError\<close>; it is the only exception the editor code can raise.
\<close>

datatype error = TypeError

text \<open>
  The search for the nearest parent in \<open>autoCheckParents\<close>:
  \<open>for (let i = currentIndex - 1; i >= 0; i--)\<close>, leaving \<open>parentIndex\<close> at \<open>-1\<close>
  (here \<open>None\<close>) when it breaks on a line that is not a todo or runs out of lines.
  The third argument is \<open>i + 1\<close>, so the loop is entered with \<open>currentIndex\<close>.
\<close>

fun findParent :: "EditorLine list \<Rightarrow> nat \<Rightarrow> nat \<Rightarrow> nat option" where
  "findParent newLines curIndent 0 = None"
| "findParent newLines curIndent (Suc i) =
     (let candidate = newLines ! i in
      if ltype candidate \<noteq> Todo then None
      else if indent candidate < curIndent then Some i
      else findParent newLines curIndent i)"

text \<open>
  The scan over the lines after the parent:
  \<open>for (let j = parentIndex + 1; j < newLines.length; j++)\<close> with the loop variables
  \<open>allChecked\<close> and \<open>hasChildren\<close>; the result is their value at loop exit.
\<close>

function scanChildren :: "EditorLine list \<Rightarrow> nat \<Rightarrow> nat \<Rightarrow> bool \<Rightarrow> bool \<Rightarrow> bool \<times> bool" where
  "scanChildren newLines childIndent j allChecked hasChildren =
     (if j < length newLines then
        (let child = newLines ! j in
         if ltype child \<noteq> Todo \<or> indent child < childIndent then (allChecked, hasChildren)
         else if indent child = childIndent then
           (if \<not> checked child then (False, True)
            else scanChildren newLines childIndent (Suc j) allChecked True)
         else scanChildren newLines childIndent (Suc j) allChecked hasChildren)
      else (allChecked, hasChildren))"
  by pat_completeness auto
termination
  by (relation "measure (\<lambda>(newLines, childIndent, j, allChecked, hasChildren). length newLines - j)")
    auto

lemma findParent_less: "findParent ls d n = Some p \<Longrightarrow> p < n"
  by (induction n) (auto simp: Let_def split: if_splits)

text \<open>
  The outer loop \<open>while (currentIndex >= 0)\<close> of \<open>autoCheckParents\<close>: one round finds
  the parent of the current line, recomputes its \<open>checked\<close> from its direct children
  and goes on from the parent.
\<close>

function autoCheckLoop :: "EditorLine list \<Rightarrow> nat \<Rightarrow> EditorLine list" where
  "autoCheckLoop newLines currentIndex =
     (let currentLine = newLines ! currentIndex in
      if ltype currentLine \<noteq> Todo \<or> indent currentLine = 0 then newLines
      else
        (case findParent newLines (indent currentLine) currentIndex of
           None \<Rightarrow> newLines
         | Some parentIndex \<Rightarrow>
             (let parent = newLines ! parentIndex;
                  childIndent = indent parent + 1
              in case scanChildren newLines childIndent (parentIndex + 1) True False of
                   (allChecked, hasChildren) \<Rightarrow>
                     autoCheckLoop
                       (if hasChildren
                        then newLines[parentIndex := parent\<lparr>checked := allChecked\<rparr>]
                        else newLines)
                       parentIndex)))"
  by pat_completeness auto
termination
  by (relation "measure (\<lambda>(newLines, currentIndex). currentIndex)")
    (auto dest: findParent_less)

text \<open>
  \<open>autoCheckParents(lines, changedIndex)\<close>: the first read \<open>newLines[currentIndex].type\<close>
  throws when \<open>changedIndex\<close> is past the end; later rounds read at a parent's index.
\<close>

definition autoCheckParents :: "EditorLine list \<Rightarrow> nat \<Rightarrow> error + EditorLine list" where
  "autoCheckParents lines changedIndex =
     (if changedIndex < length lines then Inr (autoCheckLoop lines changedIndex)
      else Inl TypeError)"

subsection \<open>The variant that stops at the nearest parent\<close>

text \<open>
  The sources hold a second \<open>autoCheckParents\<close>, in the variant of the editor where
  plain Tab turns a text line into a todo. It has no outer loop: it recomputes the
  nearest parent of the changed line and returns, and its scan has no early exit on an
  unchecked child. It is named \<open>autoCheckParents_nearest\<close> here. The editing actions
  below are those of the variant with the looping function.
\<close>

function scanChildrenAll :: "EditorLine list \<Rightarrow> nat \<Rightarrow> nat \<Rightarrow> bool \<Rightarrow> bool \<Rightarrow> bool \<times> bool" where
  "scanChildrenAll newLines childIndent j allChecked hasChildren =
     (if j < length newLines then
        (let child = newLines ! j in
         if ltype child \<noteq> Todo \<or> indent child < childIndent then (allChecked, hasChildren)
         else if indent child = childIndent then
           scanChildrenAll newLines childIndent (Suc j)
             (if \<not> checked child then False else allChecked) True
         else scanChildrenAll newLines childIndent (Suc j) allChecked hasChildren)
      else (allChecked, hasChildren))"
  by pat_completeness auto
termination
  by (relation "measure (\<lambda>(newLines, childIndent, j, allChecked, hasChildren). length newLines - j)")
    auto

definition autoCheckParents_nearest :: "EditorLine list \<Rightarrow> nat \<Rightarrow> error + EditorLine list" where
  "autoCheckParents_nearest lines changedIndex =
     (if changedIndex < length lines then
        (let changedLine = lines ! changedIndex in
         if ltype changedLine \<noteq> Todo \<or> indent changedLine = 0 then Inr lines
         else
           (case findParent lines (indent changedLine) changedIndex of
              None \<Rightarrow> Inr lines
            | Some i \<Rightarrow>
                (let parent = lines ! i;
                     childIndent = indent parent + 1
                 in case scanChildrenAll lines childIndent (i + 1) True False of
                      (allChecked, hasChildren) \<Rightarrow>
                        Inr (if hasChildren
                             then lines[i := parent\<lparr>checked := allChecked\<rparr>]
                             else lines))))
      else Inl TypeError)"

section \<open>The editing actions\<close>

text \<open>
  Every handler reads the current array \<open>lines\<close> and either calls \<open>commitChanges\<close> with
  a new array, or leaves the array alone, or throws. A handler is modelled as a function
  from the array to the error or to the pair of the array after the call and the line
  index it asks the focus to move to (\<open>focusIndexRef.current\<close>, or the direct
  \<open>focus()\<close> call of the arrow keys), if any.
\<close>

type_synonym outcome = "error + EditorLine list \<times> nat option"

definition toggleCheck :: "EditorLine list \<Rightarrow> nat \<Rightarrow> outcome" where
  "toggleCheck lines index =
     (if index < length lines then
        (case autoCheckParents
                (lines[index := (lines ! index)\<lparr>checked := \<not> checked (lines ! index)\<rparr>]) index of
           Inl err \<Rightarrow> Inl err
         | Inr newLines \<Rightarrow> Inr (newLines, None))
      else Inl TypeError)"

definition updateText :: "EditorLine list \<Rightarrow> nat \<Rightarrow> string \<Rightarrow> outcome" where
  "updateText lines index t =
     (if index < length lines then
        (let line = lines ! index in
         if ltype line = Text \<and> startsWith t ''- [x] '' then
           Inr (lines[index := \<lparr>ltype = Todo, ltext = drop 6 t, checked = True, indent = 0\<rparr>], None)
         else if ltype line = Text \<and> startsWith t ''- [ ] '' then
           Inr (lines[index := \<lparr>ltype = Todo, ltext = drop 6 t, checked = False, indent = 0\<rparr>], None)
         else Inr (lines[index := line\<lparr>ltext := t\<rparr>], None))
      else Inl TypeError)"

datatype key = Enter | Tab | Backspace | ArrowUp | ArrowDown | OtherKey

record KeyboardEvent =
  key :: key
  ctrlKey :: bool
  shiftKey :: bool

text \<open>
  \<open>handleKeyDown(index, e)\<close>. The last argument is the textarea of the line as the plain
  Tab branch reads it: \<open>None\<close> when \<open>textareaRefs.current[index]\<close> is null, else its
  \<open>selectionStart\<close> and \<open>selectionEnd\<close>. \<open>splice(index + 1, 0, newLine)\<close> and
  \<open>splice(index, 1)\<close> are written with \<open>take\<close> and \<open>drop\<close>. With an index past the end
  \<open>line\<close> is \<open>undefined\<close>, and the branches for Enter, Tab and Backspace read a
  property of it; the arrow-key branches do not.
\<close>

definition handleKeyDown ::
  "EditorLine list \<Rightarrow> nat \<Rightarrow> KeyboardEvent \<Rightarrow> (nat \<times> nat) option \<Rightarrow> outcome" where
  "handleKeyDown lines index e el =
     (if key e = Enter then
        (if index < length lines then
           (let line = lines ! index;
                newLine =
                  (if ltype line = Todo
                   then \<lparr>ltype = Todo, ltext = [], checked = False, indent = indent line\<rparr>
                   else \<lparr>ltype = Text, ltext = [], checked = False, indent = 0\<rparr>)
            in Inr (take (index + 1) lines @ newLine # drop (index + 1) lines, Some (index + 1)))
         else Inl TypeError)
      else if key e = Tab then
        (if index < length lines then
           (let line = lines ! index in
            if ctrlKey e then
              (if ltype line = Text then
                 Inr (lines[index := \<lparr>ltype = Todo, ltext = ltext line, checked = False, indent = 0\<rparr>],
                      None)
               else Inr (lines[index := line\<lparr>indent := min (indent line + 1) 3\<rparr>], None))
            else if shiftKey e then
              (if ltype line = Todo then
                 (if indent line = 0 then
                    Inr (lines[index := \<lparr>ltype = Text, ltext = ltext line, checked = False, indent = 0\<rparr>],
                         None)
                  else Inr (lines[index := line\<lparr>indent := indent line - 1\<rparr>], None))
               else Inr (lines, None))
            else
              (if ltype line = Todo then
                 Inr (lines[index := line\<lparr>indent := min (indent line + 1) 3\<rparr>], None)
               else
                 (case el of
                    None \<Rightarrow> Inr (lines, None)
                  | Some (selStart, selEnd) \<Rightarrow>
                      Inr (lines[index := line\<lparr>ltext :=
                             take selStart (ltext line) @ ''  '' @ drop selEnd (ltext line)\<rparr>],
                           None))))
         else Inl TypeError)
      else if key e = Backspace then
        (if index < length lines then
           (let line = lines ! index in
            if ltext line = [] then
              (if ltype line = Todo then
                 (if indent line > 0 then
                    Inr (lines[index := line\<lparr>indent := indent line - 1\<rparr>], Some index)
                  else
                    Inr (lines[index := \<lparr>ltype = Text, ltext = [], checked = False, indent = 0\<rparr>],
                         Some index))
               else if length lines > 1 then
                 Inr (take index lines @ drop (index + 1) lines, Some (max 0 (index - 1)))
               else Inr (lines, None))
            else Inr (lines, None))
         else Inl TypeError)
      else if key e = ArrowUp \<and> index > 0 then Inr (lines, Some (index - 1))
      else if key e = ArrowDown \<and> index < length lines - 1 then Inr (lines, Some (index + 1))
      else Inr (lines, None))"

text \<open>
  The input events the component reacts to, and the document after one event: the
  checkbox's \<open>onChange\<close>, the textarea's \<open>onChange\<close> and its \<open>onKeyDown\<close>.
\<close>

datatype action =
  Toggle nat
| EditText nat string
| KeyDown nat KeyboardEvent "(nat \<times> nat) option"

fun handle :: "EditorLine list \<Rightarrow> action \<Rightarrow> outcome" where
  "handle lines (Toggle i) = toggleCheck lines i"
| "handle lines (EditText i t) = updateText lines i t"
| "handle lines (KeyDown i e el) = handleKeyDown lines i e el"

text \<open>A sequence of events, each applied to the document the previous one left.\<close>

fun run :: "EditorLine list \<Rightarrow> action list \<Rightarrow> error + EditorLine list" where
  "run lines [] = Inr lines"
| "run lines (a # as) =
     (case handle lines a of
        Inl err \<Rightarrow> Inl err
      | Inr (newLines, focus) \<Rightarrow> run newLines as)"

text \<open>
  The component holds its array in React state: only \<open>commitChanges\<close> replaces it
  (\<open>setLines(newLines)\<close>), so a handler that throws leaves the array it read in place.
\<close>

fun linesAfter :: "EditorLine list \<Rightarrow> outcome \<Rightarrow> EditorLine list" where
  "linesAfter lines (Inl err) = lines"
| "linesAfter lines (Inr (newLines, focus)) = newLines"

text \<open>The line index an event carries, and a sequence whose indices are all in range
  when their event is handled.\<close>

fun target :: "action \<Rightarrow> nat" where
  "target (Toggle i) = i"
| "target (EditText i t) = i"
| "target (KeyDown i e el) = i"

fun valid_indices :: "EditorLine list \<Rightarrow> action list \<Rightarrow> bool" where
  "valid_indices lines [] = True"
| "valid_indices lines (a # as) =
     (target a < length lines \<and> valid_indices (linesAfter lines (handle lines a)) as)"

section \<open>Well-formed documents\<close>

text \<open>
  The data model asks that a line's text holds no line break and that a Text line has
  \<open>indent = 0\<close> and \<open>checked = false\<close>. A Text line is ambiguous when the parser
  would read its text as a todo: after the two-space markers it starts with one of the
  two todo prefixes.
\<close>

definition no_line_break :: "string \<Rightarrow> bool" where
  "no_line_break s \<longleftrightarrow> nl \<notin> set s"

definition todo_syntax :: "string \<Rightarrow> bool" where
  "todo_syntax s \<longleftrightarrow>
     (case strip_indent s of (n, stripped) \<Rightarrow>
        startsWith stripped ''- [x] '' \<or> startsWith stripped ''- [ ] '')"

definition unambiguous_line :: "EditorLine \<Rightarrow> bool" where
  "unambiguous_line l \<longleftrightarrow>
     no_line_break (ltext l) \<and>
     (ltype l = Todo \<or> (indent l = 0 \<and> \<not> checked l \<and> \<not> todo_syntax (ltext l)))"

text \<open>The indent bound of the data model, and a result that differs from a document at
  one position at most.\<close>

definition indent_bound :: "EditorLine list \<Rightarrow> bool" where
  "indent_bound ls \<longleftrightarrow> (\<forall>l\<in>set ls. ltype l = Todo \<longrightarrow> indent l \<le> 3)"

definition changes_only :: "EditorLine list \<Rightarrow> nat \<Rightarrow> EditorLine list \<Rightarrow> bool" where
  "changes_only ls i r \<longleftrightarrow>
     length r = length ls \<and> (\<forall>j<length ls. j \<noteq> i \<longrightarrow> r ! j = ls ! j)"

section \<open>The outline structure of a checklist\<close>

text \<open>
  The nesting relations of the specification, over positions of a document. The nearest
  parent of line \<open>i\<close> is the first preceding Todo with strictly smaller indent, reached
  without crossing a Text line. A direct child of \<open>p\<close> is a later Todo at exactly
  \<open>indent p + 1\<close>, before any Text line and before any line with indent at most
  \<open>indent p\<close>. An ancestor of \<open>i\<close> is an earlier Todo of smaller indent such that every
  line after it, up to \<open>i\<close>, is a Todo nested below it.
\<close>

definition nearest_parent :: "EditorLine list \<Rightarrow> nat \<Rightarrow> nat \<Rightarrow> bool" where
  "nearest_parent ls i p \<longleftrightarrow>
     p < i \<and> ltype (ls ! p) = Todo \<and> indent (ls ! p) < indent (ls ! i) \<and>
     (\<forall>k\<in>{p<..<i}. ltype (ls ! k) = Todo \<and> \<not> indent (ls ! k) < indent (ls ! i))"

definition direct_child :: "EditorLine list \<Rightarrow> nat \<Rightarrow> nat \<Rightarrow> bool" where
  "direct_child ls p c \<longleftrightarrow>
     p < c \<and> c < length ls \<and> ltype (ls ! c) = Todo \<and> indent (ls ! c) = indent (ls ! p) + 1 \<and>
     (\<forall>k\<in>{p<..<c}. ltype (ls ! k) = Todo \<and> indent (ls ! p) < indent (ls ! k))"

definition ancestor :: "EditorLine list \<Rightarrow> nat \<Rightarrow> nat \<Rightarrow> bool" where
  "ancestor ls i a \<longleftrightarrow>
     a < i \<and> ltype (ls ! a) = Todo \<and> indent (ls ! a) < indent (ls ! i) \<and>
     (\<forall>k\<in>{a<..<i}. ltype (ls ! k) = Todo \<and> indent (ls ! a) < indent (ls ! k))"



declare autoCheckLoop.simps [simp del] scanChildren.simps [simp del]
  scanChildrenAll.simps [simp del]

section \<open>Round trips\<close>

lemma split_nl_not_Nil: "split_nl s \<noteq> []"
  by (induction s) (auto split: list.splits)

lemma join_split_nl: "join_nl (split_nl s) = s"
proof (induction s)
  case Nil
  show ?case by simp
next
  case (Cons c cs)
  obtain p ps where sp: "split_nl cs = p # ps"
    using split_nl_not_Nil [of cs] by (cases "split_nl cs") auto
  show ?case
  proof (cases "c = nl")
    case True
    with Cons sp show ?thesis by simp
  next
    case False
    with Cons sp show ?thesis by (cases ps) auto
  qed
qed

lemma strip_indent_spaces: "strip_indent s = (n, r) \<Longrightarrow> spaces n @ r = s"
proof (induction s arbitrary: n r rule: strip_indent.induct)
  case (1 a b cs)
  show ?case
  proof (cases "a = CHR '' '' \<and> b = CHR '' ''")
    case True
    obtain m t where st: "strip_indent cs = (m, t)" by (cases "strip_indent cs")
    with 1 True have "spaces m @ t = cs" by simp
    moreover from "1.prems" True st have "n = Suc m" "r = t" by simp_all
    ultimately show ?thesis using True by (simp add: spaces_def)
  next
    case False
    with "1.prems" show ?thesis by (auto simp: spaces_def)
  qed
qed (auto simp: spaces_def)

lemma startsWith_take_drop: "startsWith s p \<Longrightarrow> length p = n \<Longrightarrow> p @ drop n s = s"
  unfolding startsWith_def by (metis append_take_drop_id)

lemma serialize_parseLine: "serializeLine (parseLine l) = l"
proof -
  obtain n r where st: "strip_indent l = (n, r)" by (cases "strip_indent l")
  have sp: "spaces n @ r = l" by (rule strip_indent_spaces [OF st])
  show ?thesis
  proof (cases "startsWith r ''- [x] ''")
    case True
    have "''- [x] '' @ drop 6 r = r" by (rule startsWith_take_drop [OF True]) simp
    with True st sp show ?thesis by (simp add: parseLine_def serializeLine_def)
  next
    case nx: False
    show ?thesis
    proof (cases "startsWith r ''- [ ] ''")
      case True
      have "''- [ ] '' @ drop 6 r = r" by (rule startsWith_take_drop [OF True]) simp
      with True nx st sp show ?thesis by (simp add: parseLine_def serializeLine_def)
    next
      case False
      with nx st show ?thesis by (simp add: parseLine_def serializeLine_def)
    qed
  qed
qed

text \<open>
  C7. Serializing the parse of a string gives the string back. This holds for every
  string, so in particular for every string without a todo-prefix ambiguity and for
  every string that \<open>serializeLines\<close> produced.
\<close>

theorem serialize_parse_roundtrip:
  "serializeLines (parseContent s) = s
   \<and> serializeLines (parseContent (serializeLines d)) = serializeLines d"
proof -
  have "serializeLines (parseContent t) = t" for t
  proof (cases "t = []")
    case True
    then show ?thesis
      by (simp add: parseContent_def serializeLines_def serializeLine_def)
  next
    case False
    have "map serializeLine (map parseLine (split_nl t)) = split_nl t"
      by (simp add: serialize_parseLine comp_def)
    with False show ?thesis
      by (simp add: parseContent_def serializeLines_def join_split_nl del: map_map)
  qed
  then show ?thesis by simp
qed

lemma split_nl_no_break: "no_line_break s \<Longrightarrow> split_nl s = [s]"
  by (induction s) (auto simp: no_line_break_def)

lemma split_nl_append: "no_line_break p \<Longrightarrow> split_nl (p @ nl # s) = p # split_nl s"
  by (induction p) (auto simp: no_line_break_def)

lemma split_join_nl:
  "ps \<noteq> [] \<Longrightarrow> \<forall>p\<in>set ps. no_line_break p \<Longrightarrow> split_nl (join_nl ps) = ps"
proof (induction ps rule: join_nl.induct)
  case 1
  then show ?case by simp
next
  case (2 p)
  then show ?case by (simp add: split_nl_no_break)
next
  case (3 p q ps)
  then show ?case by (simp add: split_nl_append)
qed

lemma strip_indent_spaces_dash:
  "strip_indent (spaces n @ CHR ''-'' # r) = (n, CHR ''-'' # r)"
proof (induction n)
  case 0
  show ?case by (cases r) (auto simp: spaces_def)
next
  case (Suc n)
  then show ?case by (simp add: spaces_def)
qed

lemma parse_serializeLine_todo: "ltype l = Todo \<Longrightarrow> parseLine (serializeLine l) = l"
  by (cases "checked l")
    (auto simp: parseLine_def serializeLine_def strip_indent_spaces_dash startsWith_def)

lemma parse_serializeLine_text:
  "ltype l = Text \<Longrightarrow> indent l = 0 \<Longrightarrow> \<not> checked l \<Longrightarrow> \<not> todo_syntax (ltext l)
   \<Longrightarrow> parseLine (serializeLine l) = l"
  by (auto simp: parseLine_def serializeLine_def todo_syntax_def split: prod.splits)

lemma parse_serializeLine: "unambiguous_line l \<Longrightarrow> parseLine (serializeLine l) = l"
  using parse_serializeLine_todo parse_serializeLine_text
  by (cases "ltype l") (auto simp: unambiguous_line_def)

lemma serializeLine_no_break: "unambiguous_line l \<Longrightarrow> no_line_break (serializeLine l)"
  by (auto simp: unambiguous_line_def serializeLine_def no_line_break_def spaces_def nl_def
      split: if_splits)

lemma serializeLines_empty:
  assumes ne: "d \<noteq> []" and pl: "\<forall>l\<in>set d. unambiguous_line l"
    and em: "serializeLines d = []"
  shows "d = [\<lparr>ltype = Text, ltext = [], checked = False, indent = 0\<rparr>]"
proof -
  from ne obtain l ls where d: "d = l # ls" by (cases d) auto
  from em d have ls: "ls = []" by (cases ls) (auto simp: serializeLines_def)
  from em d ls have sl: "serializeLine l = []" by (simp add: serializeLines_def)
  then have "ltype l = Text" by (cases "ltype l") (auto simp: serializeLine_def)
  with sl pl d ls show ?thesis
    by (cases l) (auto simp: serializeLine_def unambiguous_line_def)
qed

text \<open>
  C1, as stated, fails: a Text line whose stored text begins with a todo prefix is
  written out verbatim and read back as a Todo line.
\<close>

theorem parse_serialize_counterexample:
  "indent \<lparr>ltype = Text, ltext = ''- [ ] a'', checked = False, indent = 0\<rparr> \<le> 3
   \<and> parseContent
        (serializeLines [\<lparr>ltype = Text, ltext = ''- [ ] a'', checked = False, indent = 0\<rparr>])
      = [\<lparr>ltype = Todo, ltext = ''a'', checked = False, indent = 0\<rparr>]
   \<and> parseContent
        (serializeLines [\<lparr>ltype = Text, ltext = ''- [ ] a'', checked = False, indent = 0\<rparr>])
      \<noteq> [\<lparr>ltype = Text, ltext = ''- [ ] a'', checked = False, indent = 0\<rparr>]"
  by (simp add: parseContent_def serializeLines_def serializeLine_def parseLine_def
      startsWith_def nl_def)

text \<open>
  C1, amended. For every non-empty Document whose indents are in \<open>[0,3]\<close>, whose texts
  hold no line break and whose Text lines have \<open>indent = 0\<close>, \<open>checked = false\<close> and a
  text the parser does not read as a todo, parsing the serialization gives the
  Document back. Todo lines are unrestricted, and so are Text lines that begin with
  indent markers only.
\<close>

theorem parse_serialize_roundtrip:
  assumes "d \<noteq> []" and "\<forall>l\<in>set d. indent l \<le> 3" and "\<forall>l\<in>set d. unambiguous_line l"
  shows "parseContent (serializeLines d) = d"
proof (cases "serializeLines d = []")
  case True
  with assms show ?thesis
    using serializeLines_empty [of d] by (simp add: parseContent_def)
next
  case False
  have "split_nl (join_nl (map serializeLine d)) = map serializeLine d"
    using assms by (intro split_join_nl) (auto simp: serializeLine_no_break)
  moreover have "map parseLine (map serializeLine d) = d"
    using assms(3) by (simp add: parse_serializeLine map_idI)
  ultimately show ?thesis
    using False by (simp add: parseContent_def serializeLines_def del: map_map)
qed

theorem parse_serialize_roundtrip_witness:
  "parseContent
     (serializeLines
        [\<lparr>ltype = Todo, ltext = ''  - [x] a'', checked = True, indent = 3\<rparr>,
         \<lparr>ltype = Text, ltext = ''  note'', checked = False, indent = 0\<rparr>,
         \<lparr>ltype = Text, ltext = [], checked = False, indent = 0\<rparr>])
   = [\<lparr>ltype = Todo, ltext = ''  - [x] a'', checked = True, indent = 3\<rparr>,
      \<lparr>ltype = Text, ltext = ''  note'', checked = False, indent = 0\<rparr>,
      \<lparr>ltype = Text, ltext = [], checked = False, indent = 0\<rparr>]"
  by (rule parse_serialize_roundtrip)
    (simp_all add: unambiguous_line_def no_line_break_def todo_syntax_def startsWith_def nl_def)

section \<open>Properties of the propagation\<close>

lemma findParent_Some:
  "findParent ls d n = Some p \<longleftrightarrow>
     p < n \<and> ltype (ls ! p) = Todo \<and> indent (ls ! p) < d \<and>
     (\<forall>k\<in>{p<..<n}. ltype (ls ! k) = Todo \<and> \<not> indent (ls ! k) < d)"
proof (induction n)
  case 0
  show ?case by simp
next
  case (Suc n)
  show ?case
  proof (cases "ltype (ls ! n) = Todo")
    case False
    then show ?thesis
      apply (auto simp: Let_def)
      by (metis greaterThanLessThan_iff lessI less_Suc_eq)
  next
    case td: True
    show ?thesis
    proof (cases "indent (ls ! n) < d")
      case True
      with td show ?thesis
        by (auto simp: Let_def)
    next
      case False
      have *: "{p<..<Suc n} = (if p < n then insert n {p<..<n} else {})" by auto
      from False td show ?thesis
        apply (simp add: Let_def Suc *)
        by (metis less_Suc_eq)
    qed
  qed
qed

lemma direct_child_prefix:
  assumes "p < j" "j \<le> length ls"
    and "\<forall>k\<in>{p<..<j}. ltype (ls ! k) = Todo \<and> indent (ls ! p) < indent (ls ! k)"
    and "k \<in> {p<..<j}"
  shows "direct_child ls p k \<longleftrightarrow> indent (ls ! k) = indent (ls ! p) + 1"
  using assms unfolding direct_child_def by auto

lemma direct_child_stop:
  assumes "p < j" "j < length ls"
    and "ltype (ls ! j) \<noteq> Todo \<or> indent (ls ! j) < indent (ls ! p) + 1"
    and "direct_child ls p c"
  shows "c < j"
proof (rule ccontr)
  assume "\<not> c < j"
  then consider "c = j" | "j \<in> {p<..<c}" using assms(1) by fastforce
  then show False
  proof cases
    case 1
    with assms(3,4) show False unfolding direct_child_def by auto
  next
    case 2
    from assms(4) have "\<forall>k\<in>{p<..<c}. ltype (ls ! k) = Todo \<and> indent (ls ! p) < indent (ls ! k)"
      unfolding direct_child_def by blast
    with 2 have "ltype (ls ! j) = Todo \<and> indent (ls ! p) < indent (ls ! j)" by blast
    with assms(3) show False by auto
  qed
qed

lemma scanChildren_spec:
  assumes "p < j" and "j \<le> length ls"
    and "\<forall>k\<in>{p<..<j}. ltype (ls ! k) = Todo \<and> indent (ls ! p) < indent (ls ! k)"
    and "\<forall>k\<in>{p<..<j}. indent (ls ! k) = indent (ls ! p) + 1 \<longrightarrow> checked (ls ! k)"
    and "h \<longleftrightarrow> (\<exists>k\<in>{p<..<j}. indent (ls ! k) = indent (ls ! p) + 1)"
  shows "scanChildren ls (indent (ls ! p) + 1) j True h =
           ((\<forall>c<length ls. direct_child ls p c \<longrightarrow> checked (ls ! c)),
            (\<exists>c<length ls. direct_child ls p c))"
  using assms
proof (induction "length ls - j" arbitrary: j h)
  case 0
  then have jl: "j = length ls" by simp
  have dc: "direct_child ls p c \<longleftrightarrow> c \<in> {p<..<j} \<and> indent (ls ! c) = indent (ls ! p) + 1" for c
    using 0(4) jl unfolding direct_child_def by auto
  have "\<forall>c<length ls. direct_child ls p c \<longrightarrow> checked (ls ! c)"
    using 0(5) dc by auto
  moreover have "h \<longleftrightarrow> (\<exists>c<length ls. direct_child ls p c)"
    using 0(6) dc jl by auto
  ultimately show ?case using jl by (subst scanChildren.simps) simp
next
  case (Suc n)
  then have jl: "j < length ls" by simp
  have dc: "direct_child ls p c \<longleftrightarrow> indent (ls ! c) = indent (ls ! p) + 1" if "c \<in> {p<..<j}" for c
    using direct_child_prefix [OF Suc(3) Suc(4) Suc(5) that] .
  show ?case
  proof (cases "ltype (ls ! j) \<noteq> Todo \<or> indent (ls ! j) < indent (ls ! p) + 1")
    case True
    have lt: "c < j" if "direct_child ls p c" for c
      using direct_child_stop [OF Suc(3) jl True that] .
    have pj: "c \<in> {p<..<j}" if "direct_child ls p c" for c
      using lt [OF that] that unfolding direct_child_def by simp
    have "\<forall>c<length ls. direct_child ls p c \<longrightarrow> checked (ls ! c)"
      using Suc(6) dc pj by blast
    moreover have "h \<longleftrightarrow> (\<exists>c<length ls. direct_child ls p c)"
    proof
      assume h
      with Suc(7) obtain k where k: "k \<in> {p<..<j}" "indent (ls ! k) = indent (ls ! p) + 1" by blast
      with dc have "direct_child ls p k" by blast
      moreover from k jl have "k < length ls" by simp
      ultimately show "\<exists>c<length ls. direct_child ls p c" by blast
    next
      assume "\<exists>c<length ls. direct_child ls p c"
      then obtain c where c: "direct_child ls p c" by blast
      with pj dc have "c \<in> {p<..<j}" "indent (ls ! c) = indent (ls ! p) + 1" by blast+
      with Suc(7) show h by blast
    qed
    ultimately show ?thesis using jl True by (subst scanChildren.simps) (simp add: Let_def)
  next
    case False
    then have td: "ltype (ls ! j) = Todo" and ge: "indent (ls ! p) < indent (ls ! j)" by auto
    have ivl: "{p<..<Suc j} = insert j {p<..<j}" using Suc(3) by auto
    have pre: "\<forall>k\<in>{p<..<Suc j}. ltype (ls ! k) = Todo \<and> indent (ls ! p) < indent (ls ! k)"
      using Suc(5) td ge by (simp add: ivl)
    have n: "n = length ls - Suc j" using Suc(2) by simp
    show ?thesis
    proof (cases "indent (ls ! j) = indent (ls ! p) + 1")
      case eq: True
      have dj: "direct_child ls p j"
        using Suc(3) jl td eq Suc(5) unfolding direct_child_def by simp
      show ?thesis
      proof (cases "checked (ls ! j)")
        case True
        have "scanChildren ls (indent (ls ! p) + 1) (Suc j) True True =
           ((\<forall>c<length ls. direct_child ls p c \<longrightarrow> checked (ls ! c)),
            (\<exists>c<length ls. direct_child ls p c))"
        proof (rule Suc(1) [OF n _ _ pre])
          show "p < Suc j" using Suc(3) by simp
          show "Suc j \<le> length ls" using jl by simp
          show "\<forall>k\<in>{p<..<Suc j}. indent (ls ! k) = indent (ls ! p) + 1 \<longrightarrow> checked (ls ! k)"
            using Suc(6) True by (simp add: ivl)
          show "True = (\<exists>k\<in>{p<..<Suc j}. indent (ls ! k) = indent (ls ! p) + 1)"
            using eq by (simp add: ivl)
        qed
        with jl td eq True show ?thesis by (subst scanChildren.simps) (simp add: Let_def)
      next
        case False
        with dj jl have "\<not> (\<forall>c<length ls. direct_child ls p c \<longrightarrow> checked (ls ! c))"
          and "\<exists>c<length ls. direct_child ls p c" by blast+
        with jl td eq False show ?thesis by (subst scanChildren.simps) (simp add: Let_def)
      qed
    next
      case ne: False
      have "scanChildren ls (indent (ls ! p) + 1) (Suc j) True h =
           ((\<forall>c<length ls. direct_child ls p c \<longrightarrow> checked (ls ! c)),
            (\<exists>c<length ls. direct_child ls p c))"
      proof (rule Suc(1) [OF n _ _ pre])
        show "p < Suc j" using Suc(3) by simp
        show "Suc j \<le> length ls" using jl by simp
        show "\<forall>k\<in>{p<..<Suc j}. indent (ls ! k) = indent (ls ! p) + 1 \<longrightarrow> checked (ls ! k)"
          using Suc(6) ne by (simp add: ivl)
        show "h = (\<exists>k\<in>{p<..<Suc j}. indent (ls ! k) = indent (ls ! p) + 1)"
          using Suc(7) ne by (simp add: ivl)
      qed
      with jl td ne ge show ?thesis by (subst scanChildren.simps) (simp add: Let_def)
    qed
  qed
qed

lemma scanChildren_start:
  assumes "p < length ls"
  shows "scanChildren ls (indent (ls ! p) + 1) (p + 1) True False =
           ((\<forall>c<length ls. direct_child ls p c \<longrightarrow> checked (ls ! c)),
            (\<exists>c<length ls. direct_child ls p c))"
  using assms by (intro scanChildren_spec) auto


lemma nearest_parent_findParent:
  "nearest_parent ls i p \<longleftrightarrow> findParent ls (indent (ls ! i)) i = Some p"
  unfolding nearest_parent_def findParent_Some ..

lemma autoCheckLoop_stop:
  "ltype (ls ! i) \<noteq> Todo \<or> indent (ls ! i) = 0 \<Longrightarrow> autoCheckLoop ls i = ls"
  by (subst autoCheckLoop.simps) auto

lemma autoCheckLoop_no_parent:
  "findParent ls (indent (ls ! i)) i = None \<Longrightarrow> autoCheckLoop ls i = ls"
  by (subst autoCheckLoop.simps) (auto simp: Let_def)

lemma autoCheckLoop_round:
  assumes "ltype (ls ! i) = Todo" and "0 < indent (ls ! i)" and "nearest_parent ls i p"
    and "i < length ls"
  shows "autoCheckLoop ls i =
           autoCheckLoop
             (if \<exists>c<length ls. direct_child ls p c
              then ls[p := (ls ! p)\<lparr>checked := (\<forall>c<length ls. direct_child ls p c \<longrightarrow> checked (ls ! c))\<rparr>]
              else ls) p"
proof -
  from assms(3) have fp: "findParent ls (indent (ls ! i)) i = Some p"
    by (simp add: nearest_parent_findParent)
  from assms(3,4) have "p < length ls" by (simp add: nearest_parent_def)
  note sc = scanChildren_start [OF this]
  show ?thesis
    using assms(1,2) fp sc by (subst autoCheckLoop.simps) (simp add: Let_def)
qed

lemma nearest_parent_ancestor: "nearest_parent ls i p \<Longrightarrow> ancestor ls i p"
  unfolding nearest_parent_def ancestor_def by fastforce

lemma ancestor_trans:
  assumes "ancestor ls i p" and "ancestor ls p a"
  shows "ancestor ls i a"
proof -
  have "ltype (ls ! k) = Todo \<and> indent (ls ! a) < indent (ls ! k)" if k: "k \<in> {a<..<i}" for k
  proof -
    consider "k \<in> {a<..<p}" | "k = p" | "k \<in> {p<..<i}" using k by fastforce
    then show ?thesis
    proof cases
      case 1
      with assms(2) show ?thesis unfolding ancestor_def by blast
    next
      case 2
      with assms show ?thesis unfolding ancestor_def by blast
    next
      case 3
      with assms(1) have "ltype (ls ! k) = Todo \<and> indent (ls ! p) < indent (ls ! k)"
        unfolding ancestor_def by blast
      moreover from assms(2) have "indent (ls ! a) < indent (ls ! p)"
        unfolding ancestor_def by blast
      ultimately show ?thesis by simp
    qed
  qed
  moreover from assms have "a < i" "ltype (ls ! a) = Todo" "indent (ls ! a) < indent (ls ! i)"
    unfolding ancestor_def by auto
  ultimately show ?thesis unfolding ancestor_def by blast
qed

lemma ancestor_shape:
  assumes "\<forall>j\<le>i. ltype (ls' ! j) = ltype (ls ! j) \<and> indent (ls' ! j) = indent (ls ! j)"
  shows "ancestor ls' i a \<longleftrightarrow> ancestor ls i a"
  using assms unfolding ancestor_def by (auto simp: less_imp_le)


lemma autoCheckLoop_frame:
  "i < length ls \<Longrightarrow>
     length (autoCheckLoop ls i) = length ls \<and>
     (\<forall>j<length ls.
        ltype (autoCheckLoop ls i ! j) = ltype (ls ! j) \<and>
        ltext (autoCheckLoop ls i ! j) = ltext (ls ! j) \<and>
        indent (autoCheckLoop ls i ! j) = indent (ls ! j) \<and>
        (checked (autoCheckLoop ls i ! j) \<noteq> checked (ls ! j) \<longrightarrow> ancestor ls i j))"
proof (induction i arbitrary: ls rule: less_induct)
  case (less i)
  show ?case
  proof (cases "ltype (ls ! i) \<noteq> Todo \<or> indent (ls ! i) = 0")
    case True
    then show ?thesis by (simp add: autoCheckLoop_stop)
  next
    case False
    then have td: "ltype (ls ! i) = Todo" and pos: "0 < indent (ls ! i)" by auto
    show ?thesis
    proof (cases "findParent ls (indent (ls ! i)) i")
      case None
      then show ?thesis by (simp add: autoCheckLoop_no_parent)
    next
      case (Some p)
      then have np: "nearest_parent ls i p" by (simp add: nearest_parent_findParent)
      then have pi: "p < i" by (simp add: nearest_parent_def)
      with less.prems have pl: "p < length ls" by simp
      define hc where "hc \<longleftrightarrow> (\<exists>c<length ls. direct_child ls p c)"
      define ac where "ac \<longleftrightarrow> (\<forall>c<length ls. direct_child ls p c \<longrightarrow> checked (ls ! c))"
      define ls' where "ls' = (if hc then ls[p := (ls ! p)\<lparr>checked := ac\<rparr>] else ls)"
      have eq: "autoCheckLoop ls i = autoCheckLoop ls' p"
        unfolding ls'_def hc_def ac_def by (rule autoCheckLoop_round [OF td pos np less.prems])
      have len: "length ls' = length ls" by (simp add: ls'_def)
      have shape: "ltype (ls' ! j) = ltype (ls ! j) \<and> ltext (ls' ! j) = ltext (ls ! j)
          \<and> indent (ls' ! j) = indent (ls ! j) \<and> (checked (ls' ! j) \<noteq> checked (ls ! j) \<longrightarrow> j = p)"
        if "j < length ls" for j
        using that by (cases "j = p") (simp_all add: ls'_def)
      have "\<forall>j\<le>p. ltype (ls' ! j) = ltype (ls ! j) \<and> indent (ls' ! j) = indent (ls ! j)"
      proof (intro allI impI)
        fix j
        assume "j \<le> p"
        with pl have "j < length ls" by simp
        from shape [OF this] show "ltype (ls' ! j) = ltype (ls ! j) \<and> indent (ls' ! j) = indent (ls ! j)"
          by simp
      qed
      then have anc: "ancestor ls' p j \<longleftrightarrow> ancestor ls p j" for j
        by (rule ancestor_shape)
      from pl len have "p < length ls'" by simp
      note ih = less.IH [OF pi this]
      have chg: "ancestor ls i j"
        if j: "j < length ls" and ch: "checked (autoCheckLoop ls' p ! j) \<noteq> checked (ls ! j)" for j
      proof (cases "checked (autoCheckLoop ls' p ! j) \<noteq> checked (ls' ! j)")
        case True
        with ih j len have "ancestor ls' p j" by simp
        then have "ancestor ls p j" by (simp add: anc)
        with np show ?thesis by (blast intro: ancestor_trans nearest_parent_ancestor)
      next
        case False
        with ch have "checked (ls' ! j) \<noteq> checked (ls ! j)" by simp
        with shape [OF j] have "j = p" by simp
        with np show ?thesis by (simp add: nearest_parent_ancestor)
      qed
      have "length (autoCheckLoop ls' p) = length ls" using ih len by simp
      moreover have "ltype (autoCheckLoop ls' p ! j) = ltype (ls ! j) \<and>
        ltext (autoCheckLoop ls' p ! j) = ltext (ls ! j) \<and>
        indent (autoCheckLoop ls' p ! j) = indent (ls ! j) \<and>
        (checked (autoCheckLoop ls' p ! j) \<noteq> checked (ls ! j) \<longrightarrow> ancestor ls i j)"
        if j: "j < length ls" for j
      proof -
        from ih j len have "ltype (autoCheckLoop ls' p ! j) = ltype (ls' ! j) \<and>
          ltext (autoCheckLoop ls' p ! j) = ltext (ls' ! j) \<and>
          indent (autoCheckLoop ls' p ! j) = indent (ls' ! j)" by simp
        with shape [OF j] chg [OF j] show ?thesis by simp
      qed
      ultimately show ?thesis unfolding eq by blast
    qed
  qed
qed

lemma EditorLine_eqI:
  "ltype a = ltype b \<Longrightarrow> ltext a = ltext b \<Longrightarrow> indent a = indent b \<Longrightarrow> checked a = checked b
   \<Longrightarrow> a = (b::EditorLine)"
  by simp

text \<open>
  C8. Propagation from a changed index returns a document of the same length in which
  the changed line and every line after it are as before. A line that differs from
  before is an ancestor of the changed line: a Todo at a strictly smaller index with a
  strictly smaller indent, with only Todo lines nested below it up to the changed line;
  and it differs in its \<open>checked\<close> field only.
\<close>

theorem propagation_frame:
  assumes "i < length ls"
  shows "\<exists>r. autoCheckParents ls i = Inr r \<and> length r = length ls \<and>
           (\<forall>j<length ls.
              (i \<le> j \<longrightarrow> r ! j = ls ! j) \<and>
              (r ! j \<noteq> ls ! j \<longrightarrow>
                 j < i \<and> ltype (ls ! j) = Todo \<and> indent (ls ! j) < indent (ls ! i) \<and>
                 ancestor ls i j \<and> r ! j = (ls ! j)\<lparr>checked := checked (r ! j)\<rparr>))"
proof -
  define r where "r = autoCheckLoop ls i"
  note fr = autoCheckLoop_frame [OF assms, folded r_def]
  have "(i \<le> j \<longrightarrow> r ! j = ls ! j) \<and>
        (r ! j \<noteq> ls ! j \<longrightarrow>
           j < i \<and> ltype (ls ! j) = Todo \<and> indent (ls ! j) < indent (ls ! i) \<and>
           ancestor ls i j \<and> r ! j = (ls ! j)\<lparr>checked := checked (r ! j)\<rparr>)"
    if j: "j < length ls" for j
  proof -
    from fr j have f: "ltype (r ! j) = ltype (ls ! j)" "ltext (r ! j) = ltext (ls ! j)"
      "indent (r ! j) = indent (ls ! j)"
      and a: "checked (r ! j) \<noteq> checked (ls ! j) \<Longrightarrow> ancestor ls i j" by simp_all
    have upd: "r ! j = (ls ! j)\<lparr>checked := checked (r ! j)\<rparr>"
      by (rule EditorLine_eqI) (simp_all add: f)
    have ne: "ancestor ls i j" if "r ! j \<noteq> ls ! j"
    proof (rule a)
      show "checked (r ! j) \<noteq> checked (ls ! j)"
        using that f by (metis EditorLine_eqI)
    qed
    have lt: "j < i \<and> ltype (ls ! j) = Todo \<and> indent (ls ! j) < indent (ls ! i)" if "r ! j \<noteq> ls ! j"
      using ne [OF that] unfolding ancestor_def by simp
    have "r ! j = ls ! j" if "i \<le> j"
    proof (rule ccontr)
      assume "r ! j \<noteq> ls ! j"
      from lt [OF this] that show False by simp
    qed
    with ne lt upd show ?thesis by blast
  qed
  moreover have "length r = length ls" using fr by simp
  moreover have "autoCheckParents ls i = Inr r" using assms by (simp add: autoCheckParents_def r_def)
  ultimately show ?thesis by blast
qed

theorem propagation_frame_witness:
  "\<exists>r. autoCheckParents
          [\<lparr>ltype = Todo, ltext = ''a'', checked = False, indent = 0\<rparr>,
           \<lparr>ltype = Todo, ltext = ''b'', checked = True, indent = 1\<rparr>] 1 = Inr r
       \<and> length r = 2
       \<and> r ! 1 = \<lparr>ltype = Todo, ltext = ''b'', checked = True, indent = 1\<rparr>
       \<and> r ! 0 = \<lparr>ltype = Todo, ltext = ''a'', checked = True, indent = 0\<rparr>
       \<and> ancestor
            [\<lparr>ltype = Todo, ltext = ''a'', checked = False, indent = 0\<rparr>,
             \<lparr>ltype = Todo, ltext = ''b'', checked = True, indent = 1\<rparr>] 1 0"
proof -
  let ?ls = "[\<lparr>ltype = Todo, ltext = ''a'', checked = False, indent = 0\<rparr>,
              \<lparr>ltype = Todo, ltext = ''b'', checked = True, indent = 1\<rparr>]"
  have run: "autoCheckParents ?ls 1
      = Inr [\<lparr>ltype = Todo, ltext = ''a'', checked = True, indent = 0\<rparr>,
             \<lparr>ltype = Todo, ltext = ''b'', checked = True, indent = 1\<rparr>]"
    by (simp add: autoCheckParents_def autoCheckLoop.simps scanChildren.simps)
  have "1 < length ?ls" by simp
  from propagation_frame [OF this]
  obtain r where r: "autoCheckParents ?ls 1 = Inr r"
    and changed: "\<forall>j<length ?ls. r ! j \<noteq> ?ls ! j \<longrightarrow> ancestor ?ls 1 j"
    by blast
  from r run have "r ! 0 \<noteq> ?ls ! 0" by simp
  moreover have "0 < length ?ls" by simp
  ultimately have "ancestor ?ls 1 0" using changed by blast
  with run show ?thesis by simp
qed

lemma autoCheckLoop_nth_ge:
  assumes "i < length ls" and "i \<le> j" and "j < length ls"
  shows "autoCheckLoop ls i ! j = ls ! j"
proof -
  from autoCheckLoop_frame [OF assms(1)] assms(3)
  have f: "ltype (autoCheckLoop ls i ! j) = ltype (ls ! j)"
    "ltext (autoCheckLoop ls i ! j) = ltext (ls ! j)"
    "indent (autoCheckLoop ls i ! j) = indent (ls ! j)"
    and a: "checked (autoCheckLoop ls i ! j) \<noteq> checked (ls ! j) \<longrightarrow> ancestor ls i j" by simp_all
  from assms(2) have "\<not> ancestor ls i j" by (simp add: ancestor_def)
  with a have "checked (autoCheckLoop ls i ! j) = checked (ls ! j)" by blast
  with f show ?thesis by (intro EditorLine_eqI)
qed





text \<open>
  C3. After propagation from a changed Todo line with \<open>indent > 0\<close> whose nearest parent
  is \<open>p\<close>: when \<open>p\<close> has at least one direct child, \<open>p\<close> is checked if and only if all
  its direct children are checked; when it has none, its \<open>checked\<close> is as before. The
  direct children themselves are untouched.
\<close>

theorem propagation_parent:
  assumes "i < length ls" and "ltype (ls ! i) = Todo" and "0 < indent (ls ! i)"
    and "nearest_parent ls i p"
  shows "\<exists>r. autoCheckParents ls i = Inr r \<and>
           ((\<exists>c<length ls. direct_child ls p c) \<longrightarrow>
              (checked (r ! p) \<longleftrightarrow> (\<forall>c<length ls. direct_child ls p c \<longrightarrow> checked (r ! c)))) \<and>
           (\<not> (\<exists>c<length ls. direct_child ls p c) \<longrightarrow> checked (r ! p) = checked (ls ! p)) \<and>
           (\<forall>c<length ls. direct_child ls p c \<longrightarrow> r ! c = ls ! c)"
proof -
  define hc where "hc \<longleftrightarrow> (\<exists>c<length ls. direct_child ls p c)"
  define ac where "ac \<longleftrightarrow> (\<forall>c<length ls. direct_child ls p c \<longrightarrow> checked (ls ! c))"
  define ls' where "ls' = (if hc then ls[p := (ls ! p)\<lparr>checked := ac\<rparr>] else ls)"
  define r where "r = autoCheckLoop ls i"
  have eq: "r = autoCheckLoop ls' p"
    unfolding ls'_def hc_def ac_def r_def by (rule autoCheckLoop_round [OF assms(2,3,4,1)])
  from assms(1,4) have pl: "p < length ls" by (simp add: nearest_parent_def)
  have len: "length ls' = length ls" by (simp add: ls'_def)
  have keep: "r ! j = ls' ! j" if "p \<le> j" "j < length ls" for j
    unfolding eq using pl len that by (intro autoCheckLoop_nth_ge) simp_all
  have child: "r ! c = ls ! c" if "direct_child ls p c" for c
  proof -
    from that have "p < c" "c < length ls" by (simp_all add: direct_child_def)
    then show ?thesis using keep [of c] by (simp add: ls'_def)
  qed
  have par: "checked (r ! p) = (if hc then ac else checked (ls ! p))"
    using keep [of p] pl by (simp add: ls'_def)
  have "ac \<longleftrightarrow> (\<forall>c<length ls. direct_child ls p c \<longrightarrow> checked (r ! c))"
    unfolding ac_def using child by auto
  with par have "(hc \<longrightarrow> (checked (r ! p) \<longleftrightarrow> (\<forall>c<length ls. direct_child ls p c \<longrightarrow> checked (r ! c))))
      \<and> (\<not> hc \<longrightarrow> checked (r ! p) = checked (ls ! p))" by simp
  moreover have "autoCheckParents ls i = Inr r"
    using assms(1) by (simp add: autoCheckParents_def r_def)
  ultimately show ?thesis unfolding hc_def using child by blast
qed

lemma ball_interval_Suc:
  "(\<forall>k\<in>{a<..<Suc b}. P k) \<longleftrightarrow> (\<forall>k\<in>{a<..<b}. P k) \<and> (a < b \<longrightarrow> P b)"
  by (auto simp: less_Suc_eq)

theorem propagation_parent_witness:
  "(\<exists>r. autoCheckParents
          [\<lparr>ltype = Todo, ltext = ''a'', checked = True, indent = 0\<rparr>,
           \<lparr>ltype = Todo, ltext = ''b'', checked = True, indent = 1\<rparr>,
           \<lparr>ltype = Todo, ltext = ''c'', checked = False, indent = 1\<rparr>] 2 = Inr r
       \<and> \<not> checked (r ! 0))
   \<and> (\<exists>r. autoCheckParents
          [\<lparr>ltype = Todo, ltext = ''a'', checked = True, indent = 0\<rparr>,
           \<lparr>ltype = Todo, ltext = ''b'', checked = False, indent = 2\<rparr>] 1 = Inr r
       \<and> checked (r ! 0))"
proof
  let ?ls = "[\<lparr>ltype = Todo, ltext = ''a'', checked = True, indent = 0\<rparr>,
           \<lparr>ltype = Todo, ltext = ''b'', checked = True, indent = 1\<rparr>,
           \<lparr>ltype = Todo, ltext = ''c'', checked = False, indent = 1\<rparr>]"
  have np: "nearest_parent ?ls 2 0"
    by (simp add: nearest_parent_def eval_nat_numeral ball_interval_Suc)
  have dc: "direct_child ?ls 0 2"
    by (simp add: direct_child_def eval_nat_numeral ball_interval_Suc)
  have "\<exists>r. autoCheckParents ?ls 2 = Inr r \<and>
           ((\<exists>c<length ?ls. direct_child ?ls 0 c) \<longrightarrow>
              (checked (r ! 0) \<longleftrightarrow> (\<forall>c<length ?ls. direct_child ?ls 0 c \<longrightarrow> checked (r ! c)))) \<and>
           (\<not> (\<exists>c<length ?ls. direct_child ?ls 0 c) \<longrightarrow> checked (r ! 0) = checked (?ls ! 0)) \<and>
           (\<forall>c<length ?ls. direct_child ?ls 0 c \<longrightarrow> r ! c = ?ls ! c)"
    by (rule propagation_parent [OF _ _ _ np]) simp_all
  then obtain r where r: "autoCheckParents ?ls 2 = Inr r"
    and iff: "(\<exists>c<length ?ls. direct_child ?ls 0 c) \<longrightarrow>
      (checked (r ! 0) \<longleftrightarrow> (\<forall>c<length ?ls. direct_child ?ls 0 c \<longrightarrow> checked (r ! c)))"
    and same: "\<forall>c<length ?ls. direct_child ?ls 0 c \<longrightarrow> r ! c = ?ls ! c"
    by blast
  have l: "2 < length ?ls" by simp
  from same dc l have "r ! 2 = ?ls ! 2" by blast
  then have "\<not> checked (r ! 2)" by simp
  with iff dc l have "\<not> checked (r ! 0)" by blast
  with r show "\<exists>r. autoCheckParents ?ls 2 = Inr r \<and> \<not> checked (r ! 0)" by blast
next
  let ?ls = "[\<lparr>ltype = Todo, ltext = ''a'', checked = True, indent = 0\<rparr>,
           \<lparr>ltype = Todo, ltext = ''b'', checked = False, indent = 2\<rparr>]"
  have np: "nearest_parent ?ls 1 0"
    by (simp add: nearest_parent_def)
  have none: "\<not> (\<exists>c<length ?ls. direct_child ?ls 0 c)"
    by (auto simp: direct_child_def less_Suc_eq)
  have "\<exists>r. autoCheckParents ?ls 1 = Inr r \<and>
           ((\<exists>c<length ?ls. direct_child ?ls 0 c) \<longrightarrow>
              (checked (r ! 0) \<longleftrightarrow> (\<forall>c<length ?ls. direct_child ?ls 0 c \<longrightarrow> checked (r ! c)))) \<and>
           (\<not> (\<exists>c<length ?ls. direct_child ?ls 0 c) \<longrightarrow> checked (r ! 0) = checked (?ls ! 0)) \<and>
           (\<forall>c<length ?ls. direct_child ?ls 0 c \<longrightarrow> r ! c = ?ls ! c)"
    by (rule propagation_parent [OF _ _ _ np]) simp_all
  then obtain r where r: "autoCheckParents ?ls 1 = Inr r"
    and keep: "\<not> (\<exists>c<length ?ls. direct_child ?ls 0 c) \<longrightarrow> checked (r ! 0) = checked (?ls ! 0)"
    by blast
  from keep none have "checked (r ! 0)" by simp
  with r show "\<exists>r. autoCheckParents ?ls 1 = Inr r \<and> checked (r ! 0)" by blast
qed

lemma toggleCheck_Inr:
  "i < length ls \<Longrightarrow>
   toggleCheck ls i =
     Inr (autoCheckLoop (ls[i := (ls ! i)\<lparr>checked := \<not> checked (ls ! i)\<rparr>]) i, None)"
  by (simp add: toggleCheck_def autoCheckParents_def)

lemma toggleCheck_Inl: "\<not> i < length ls \<Longrightarrow> toggleCheck ls i = Inl TypeError"
  by (simp add: toggleCheck_def)













text \<open>
  The variant without the outer loop, on the same three levels after the child was
  checked: the parent becomes checked, the grandparent is not looked at.
\<close>

lemma autoCheckParents_nearest_one_level:
  "autoCheckParents_nearest
     [\<lparr>ltype = Todo, ltext = ''g'', checked = False, indent = 0\<rparr>,
      \<lparr>ltype = Todo, ltext = ''p'', checked = False, indent = 1\<rparr>,
      \<lparr>ltype = Todo, ltext = ''c'', checked = True, indent = 2\<rparr>] 2
   = Inr [\<lparr>ltype = Todo, ltext = ''g'', checked = False, indent = 0\<rparr>,
          \<lparr>ltype = Todo, ltext = ''p'', checked = True, indent = 1\<rparr>,
          \<lparr>ltype = Todo, ltext = ''c'', checked = True, indent = 2\<rparr>]"
  by (simp add: autoCheckParents_nearest_def scanChildrenAll.simps eval_nat_numeral)

section \<open>Properties of the editing actions\<close>

text \<open>
  C4, as stated, fails: \<open>toggleCheck\<close> does not look at the kind of the line, and on a
  Text line it returns a document whose line has \<open>checked = true\<close>.
\<close>

theorem toggle_text_counterexample:
  "toggleCheck [\<lparr>ltype = Text, ltext = ''a'', checked = False, indent = 0\<rparr>] 0
     = Inr ([\<lparr>ltype = Text, ltext = ''a'', checked = True, indent = 0\<rparr>], None)
   \<and> [\<lparr>ltype = Text, ltext = ''a'', checked = True, indent = 0\<rparr>]
       \<noteq> [\<lparr>ltype = Text, ltext = ''a'', checked = False, indent = 0\<rparr>]"
  by (simp add: toggleCheck_def autoCheckParents_def autoCheckLoop_stop)

lemma serializeLines_update:
  assumes "i < length ls" and "serializeLine l = serializeLine (ls ! i)"
  shows "serializeLines (ls[i := l]) = serializeLines ls"
proof -
  have "map serializeLine (ls[i := l]) = (map serializeLine ls)[i := serializeLine (ls ! i)]"
    by (simp add: map_update assms(2))
  also have "\<dots> = map serializeLine ls"
    using assms(1) by (metis list_update_id nth_map)
  finally show ?thesis by (simp add: serializeLines_def)
qed

text \<open>
  C4, amended. \<open>toggleCheck\<close> at a valid index flips \<open>checked\<close> on the line whatever its
  kind and then runs the propagation from that index. On a Text line the propagation
  is the identity: the result is the document with that one flag flipped, and its
  serialization is the one of the document before.
\<close>

theorem toggle_flips:
  assumes "i < length ls"
  shows "\<exists>r. autoCheckParents (ls[i := (ls ! i)\<lparr>checked := \<not> checked (ls ! i)\<rparr>]) i = Inr r \<and>
           toggleCheck ls i = Inr (r, None) \<and>
           (ltype (ls ! i) = Text \<longrightarrow>
              r = ls[i := (ls ! i)\<lparr>checked := \<not> checked (ls ! i)\<rparr>] \<and>
              serializeLines r = serializeLines ls)"
proof -
  let ?t = "ls[i := (ls ! i)\<lparr>checked := \<not> checked (ls ! i)\<rparr>]"
  have a: "autoCheckParents ?t i = Inr (autoCheckLoop ?t i)"
    using assms by (simp add: autoCheckParents_def)
  then have t: "toggleCheck ls i = Inr (autoCheckLoop ?t i, None)"
    using assms by (simp add: toggleCheck_def)
  have "autoCheckLoop ?t i = ?t \<and> serializeLines ?t = serializeLines ls" if "ltype (ls ! i) = Text"
  proof
    show "autoCheckLoop ?t i = ?t" using that assms by (intro autoCheckLoop_stop) simp
    show "serializeLines ?t = serializeLines ls"
      using that assms by (intro serializeLines_update) (simp_all add: serializeLine_def)
  qed
  with a t show ?thesis by simp
qed

theorem toggle_flips_witness:
  "\<exists>r. toggleCheck [\<lparr>ltype = Text, ltext = ''a'', checked = False, indent = 0\<rparr>] 0 = Inr (r, None)
       \<and> r = [\<lparr>ltype = Text, ltext = ''a'', checked = True, indent = 0\<rparr>]
       \<and> serializeLines r = ''a''"
  using toggle_flips [of 0 "[\<lparr>ltype = Text, ltext = ''a'', checked = False, indent = 0\<rparr>]"]
  by (auto simp: serializeLines_def serializeLine_def)


lemma indent_bound_nth:
  "indent_bound ls \<longleftrightarrow> (\<forall>j<length ls. ltype (ls ! j) = Todo \<longrightarrow> indent (ls ! j) \<le> 3)"
  by (simp add: indent_bound_def all_set_conv_all_nth)

lemma indent_bound_update:
  "indent_bound ls \<Longrightarrow> ltype l = Todo \<longrightarrow> indent l \<le> 3 \<Longrightarrow> indent_bound (ls[i := l])"
  unfolding indent_bound_def by (metis insert_iff set_update_subset_insert subsetD)

lemma indent_bound_autoCheckLoop:
  assumes "i < length ls" and "indent_bound ls"
  shows "indent_bound (autoCheckLoop ls i)"
proof -
  note fr = autoCheckLoop_frame [OF assms(1)]
  show ?thesis
    unfolding indent_bound_nth
  proof (intro allI impI)
    fix j
    assume j: "j < length (autoCheckLoop ls i)" and td: "ltype (autoCheckLoop ls i ! j) = Todo"
    from j fr have jl: "j < length ls" by simp
    with fr have "ltype (autoCheckLoop ls i ! j) = ltype (ls ! j)"
      "indent (autoCheckLoop ls i ! j) = indent (ls ! j)" by blast+
    with td jl assms(2) show "indent (autoCheckLoop ls i ! j) \<le> 3"
      by (simp add: indent_bound_nth)
  qed
qed

lemma indent_bound_toggleCheck:
  assumes "indent_bound ls" and "toggleCheck ls i = Inr (r, f)"
  shows "indent_bound r"
proof (cases "i < length ls")
  case True
  let ?t = "ls[i := (ls ! i)\<lparr>checked := \<not> checked (ls ! i)\<rparr>]"
  from True assms(1) have "ltype (ls ! i) = Todo \<longrightarrow> indent (ls ! i) \<le> 3"
    by (simp add: indent_bound_nth)
  then have "indent_bound ?t" by (intro indent_bound_update [OF assms(1)]) simp
  moreover from True have "i < length ?t" by simp
  ultimately have "indent_bound (autoCheckLoop ?t i)" by (intro indent_bound_autoCheckLoop)
  with assms(2) True show ?thesis by (simp add: toggleCheck_Inr)
next
  case False
  with assms(2) show ?thesis by (simp add: toggleCheck_Inl)
qed

lemma indent_bound_updateText:
  assumes "indent_bound ls" and "updateText ls i t = Inr (r, f)"
  shows "indent_bound r"
proof (cases "i < length ls")
  case True
  with assms(1) have "ltype (ls ! i) = Todo \<longrightarrow> indent (ls ! i) \<le> 3"
    by (simp add: indent_bound_nth)
  with assms True show ?thesis
    by (auto simp: updateText_def Let_def intro!: indent_bound_update split: if_splits)
next
  case False
  with assms(2) show ?thesis by (simp add: updateText_def)
qed

lemma indent_bound_splice:
  "indent_bound ls \<Longrightarrow> ltype l = Todo \<longrightarrow> indent l \<le> 3 \<Longrightarrow>
   indent_bound (take n ls @ l # drop n ls)"
  unfolding indent_bound_def by (auto dest: in_set_takeD in_set_dropD)

lemma indent_bound_remove:
  "indent_bound ls \<Longrightarrow> indent_bound (take n ls @ drop m ls)"
  unfolding indent_bound_def by (auto dest: in_set_takeD in_set_dropD)

lemma indent_bound_handleKeyDown:
  assumes "indent_bound ls" and "handleKeyDown ls i e el = Inr (r, f)"
  shows "indent_bound r"
proof (cases "i < length ls")
  case True
  with assms(1) have b: "ltype (ls ! i) = Todo \<longrightarrow> indent (ls ! i) \<le> 3"
    by (simp add: indent_bound_nth)
  show ?thesis
  proof (cases "key e")
    case Enter
    with assms True b show ?thesis
      by (auto simp: handleKeyDown_def Let_def intro!: indent_bound_splice split: if_splits)
  next
    case Tab
    with assms True b show ?thesis
      by (auto simp: handleKeyDown_def Let_def intro!: indent_bound_update
          split: if_splits option.splits)
  next
    case Backspace
    with assms True b show ?thesis
      by (auto simp: handleKeyDown_def Let_def intro!: indent_bound_update indent_bound_remove
          split: if_splits)
  next
    case ArrowUp
    with assms show ?thesis by (auto simp: handleKeyDown_def split: if_splits)
  next
    case ArrowDown
    with assms show ?thesis by (auto simp: handleKeyDown_def split: if_splits)
  next
    case OtherKey
    with assms show ?thesis by (auto simp: handleKeyDown_def split: if_splits)
  qed
next
  case False
  with assms show ?thesis by (cases "key e") (auto simp: handleKeyDown_def split: if_splits)
qed


text \<open>
  C5, as stated, fails: the parser reads an indent of 5 from ten leading spaces, and
  Enter on that line gives two Todo lines of indent 5.
\<close>

theorem indent_bound_counterexample:
  "parseContent ''          - [ ] a''
     = [\<lparr>ltype = Todo, ltext = ''a'', checked = False, indent = 5\<rparr>]
   \<and> handle (parseContent ''          - [ ] a'')
        (KeyDown 0 \<lparr>key = Enter, ctrlKey = False, shiftKey = False\<rparr> None)
     = Inr ([\<lparr>ltype = Todo, ltext = ''a'', checked = False, indent = 5\<rparr>,
             \<lparr>ltype = Todo, ltext = [], checked = False, indent = 5\<rparr>], Some 1)
   \<and> \<not> indent_bound [\<lparr>ltype = Todo, ltext = ''a'', checked = False, indent = 5\<rparr>,
                       \<lparr>ltype = Todo, ltext = [], checked = False, indent = 5\<rparr>]"
  by (simp add: parseContent_def parseLine_def startsWith_def nl_def handleKeyDown_def
      indent_bound_def)

text \<open>
  C5, amended. When every Todo line of the document has an indent of at most 3, every
  Todo line has after one event, whichever it is. Tab without Shift, or with Ctrl, on
  a Todo line at a valid index stores \<open>min (indent + 1) 3\<close> in that line, whatever its
  indent was, and returns the document with that line replaced.
\<close>

theorem indent_bound_preserved:
  "(indent_bound ls \<and> handle ls a = Inr (r, f) \<longrightarrow> indent_bound r) \<and>
   (i < length ls \<and> ltype (ls ! i) = Todo \<and> key e = Tab \<and> (ctrlKey e \<or> \<not> shiftKey e) \<longrightarrow>
      handleKeyDown ls i e el = Inr (ls[i := (ls ! i)\<lparr>indent := min (indent (ls ! i) + 1) 3\<rparr>], None))"
proof
  show "indent_bound ls \<and> handle ls a = Inr (r, f) \<longrightarrow> indent_bound r"
    by (cases a)
      (auto dest: indent_bound_toggleCheck indent_bound_updateText indent_bound_handleKeyDown)
  show "i < length ls \<and> ltype (ls ! i) = Todo \<and> key e = Tab \<and> (ctrlKey e \<or> \<not> shiftKey e) \<longrightarrow>
      handleKeyDown ls i e el = Inr (ls[i := (ls ! i)\<lparr>indent := min (indent (ls ! i) + 1) 3\<rparr>], None)"
    by (auto simp: handleKeyDown_def Let_def)
qed

theorem indent_bound_preserved_witness:
  "indent_bound [\<lparr>ltype = Todo, ltext = ''a'', checked = False, indent = 3\<rparr>,
                 \<lparr>ltype = Todo, ltext = [], checked = False, indent = 3\<rparr>]
   \<and> handleKeyDown [\<lparr>ltype = Todo, ltext = ''a'', checked = False, indent = 5\<rparr>] 0
        \<lparr>key = Tab, ctrlKey = False, shiftKey = False\<rparr> None
     = Inr ([\<lparr>ltype = Todo, ltext = ''a'', checked = False, indent = 3\<rparr>], None)"
proof
  let ?ls = "[\<lparr>ltype = Todo, ltext = ''a'', checked = False, indent = 3\<rparr>]"
  let ?a = "KeyDown 0 \<lparr>key = Enter, ctrlKey = False, shiftKey = False\<rparr> None"
  let ?r = "[\<lparr>ltype = Todo, ltext = ''a'', checked = False, indent = 3\<rparr>,
             \<lparr>ltype = Todo, ltext = [], checked = False, indent = 3\<rparr>]"
  have "indent_bound ?ls" by (simp add: indent_bound_def)
  moreover have "handle ?ls ?a = Inr (?r, Some 1)" by (simp add: handleKeyDown_def)
  ultimately show "indent_bound ?r"
    using indent_bound_preserved [of ?ls ?a ?r "Some 1"] by blast
  show "handleKeyDown [\<lparr>ltype = Todo, ltext = ''a'', checked = False, indent = 5\<rparr>] 0
        \<lparr>key = Tab, ctrlKey = False, shiftKey = False\<rparr> None
     = Inr ([\<lparr>ltype = Todo, ltext = ''a'', checked = False, indent = 3\<rparr>], None)"
    using indent_bound_preserved
      [where i = 0 and ls = "[\<lparr>ltype = Todo, ltext = ''a'', checked = False, indent = 5\<rparr>]"
         and e = "\<lparr>key = Tab, ctrlKey = False, shiftKey = False\<rparr>" and el = None]
    by simp
qed


lemma parseContent_not_Nil: "parseContent s \<noteq> []"
  by (simp add: parseContent_def split_nl_not_Nil)

lemma length_toggleCheck: "toggleCheck ls i = Inr (r, f) \<Longrightarrow> length r = length ls"
proof (cases "i < length ls")
  case True
  assume "toggleCheck ls i = Inr (r, f)"
  with True have "r = autoCheckLoop (ls[i := (ls ! i)\<lparr>checked := \<not> checked (ls ! i)\<rparr>]) i"
    by (simp add: toggleCheck_Inr)
  moreover from True have "i < length (ls[i := (ls ! i)\<lparr>checked := \<not> checked (ls ! i)\<rparr>])"
    by simp
  ultimately show ?thesis using autoCheckLoop_frame by fastforce
next
  case False
  assume "toggleCheck ls i = Inr (r, f)"
  with False show ?thesis by (simp add: toggleCheck_Inl)
qed

lemma length_updateText: "updateText ls i t = Inr (r, f) \<Longrightarrow> length r = length ls"
  by (auto simp: updateText_def Let_def split: if_splits)

lemma length_handleKeyDown:
  "handleKeyDown ls i e el = Inr (r, f) \<Longrightarrow>
   length r = length ls \<or> length r = length ls + 1 \<or> (1 < length ls \<and> length r + 1 = length ls)"
  by (cases "key e") (auto simp: handleKeyDown_def Let_def split: if_splits option.splits)

lemma length_handle:
  "handle ls a = Inr (r, f) \<Longrightarrow>
   length r = length ls \<or> length r = length ls + 1 \<or> (1 < length ls \<and> length r + 1 = length ls)"
  by (cases a) (auto dest: length_toggleCheck length_updateText length_handleKeyDown)

lemma handle_not_Nil: "handle ls a = Inr (r, f) \<Longrightarrow> ls \<noteq> [] \<Longrightarrow> r \<noteq> []"
  using length_handle [of ls a r f] by (cases r) auto

lemma run_not_Nil: "run ls acts = Inr d \<Longrightarrow> ls \<noteq> [] \<Longrightarrow> d \<noteq> []"
proof (induction acts arbitrary: ls)
  case Nil
  then show ?case by simp
next
  case (Cons a acts)
  from Cons.prems(1) obtain r f where h: "handle ls a = Inr (r, f)" and r: "run r acts = Inr d"
    by (auto split: sum.splits)
  from handle_not_Nil [OF h Cons.prems(2)] have "r \<noteq> []" .
  with r show ?case by (rule Cons.IH)
qed

lemma handle_valid_index: "target a < length ls \<Longrightarrow> \<exists>r f. handle ls a = Inr (r, f)"
proof (cases a)
  case (Toggle i)
  assume "target a < length ls"
  with Toggle show ?thesis by (simp add: toggleCheck_Inr)
next
  case (EditText i t)
  assume "target a < length ls"
  with EditText show ?thesis by (simp add: updateText_def Let_def)
next
  case (KeyDown i e el)
  assume "target a < length ls"
  with KeyDown show ?thesis
    by (cases "key e") (auto simp: handleKeyDown_def Let_def split: option.splits)
qed

lemma run_valid_indices: "valid_indices ls acts \<Longrightarrow> \<exists>d. run ls acts = Inr d"
proof (induction acts arbitrary: ls)
  case Nil
  show ?case by simp
next
  case (Cons a acts)
  from Cons.prems have "target a < length ls" by simp
  from handle_valid_index [OF this] obtain r f where h: "handle ls a = Inr (r, f)" by blast
  with Cons.prems have "valid_indices r acts" by simp
  from Cons.IH [OF this] h show ?case by simp
qed

text \<open>
  C6. A sequence of events whose indices are in range runs to the end on a parsed
  document, and a document reached from a parsed one has at least one line.
  Backspace on a document that is one empty Text line returns it as it is, and an event
  that returns fewer lines was given more than one.
\<close>

theorem never_empty:
  "(valid_indices (parseContent s) acts \<longrightarrow> (\<exists>d. run (parseContent s) acts = Inr d)) \<and>
   (run (parseContent s) acts = Inr d \<longrightarrow> 1 \<le> length d) \<and>
   (key e = Backspace \<and> ltype l = Text \<and> ltext l = [] \<longrightarrow>
      handleKeyDown [l] 0 e el = Inr ([l], None)) \<and>
   (handle ls a = Inr (r, f) \<and> length r < length ls \<longrightarrow> 1 < length ls \<and> 1 \<le> length r)"
proof (intro conjI impI)
  show "\<exists>d. run (parseContent s) acts = Inr d" if "valid_indices (parseContent s) acts"
    using that by (rule run_valid_indices)
  show "1 \<le> length d" if "run (parseContent s) acts = Inr d"
    using run_not_Nil [OF that parseContent_not_Nil] by (cases d) auto
  show "handleKeyDown [l] 0 e el = Inr ([l], None)"
    if "key e = Backspace \<and> ltype l = Text \<and> ltext l = []"
    using that by (simp add: handleKeyDown_def)
  assume h: "handle ls a = Inr (r, f) \<and> length r < length ls"
  with length_handle [of ls a r f] show "1 < length ls" by auto
  from h length_handle [of ls a r f] show "1 \<le> length r" by auto
qed

theorem never_empty_witness:
  "(\<exists>d. run (parseContent [nl])
          [KeyDown 1 \<lparr>key = Backspace, ctrlKey = False, shiftKey = False\<rparr> None,
           KeyDown 0 \<lparr>key = Backspace, ctrlKey = False, shiftKey = False\<rparr> None] = Inr d
        \<and> 1 \<le> length d)
   \<and> handleKeyDown [\<lparr>ltype = Text, ltext = [], checked = False, indent = 0\<rparr>] 0
        \<lparr>key = Backspace, ctrlKey = False, shiftKey = False\<rparr> None
      = Inr ([\<lparr>ltype = Text, ltext = [], checked = False, indent = 0\<rparr>], None)
   \<and> 1 < length (parseContent [nl])"
proof (intro conjI)
  let ?bs = "\<lparr>key = Backspace, ctrlKey = False, shiftKey = False\<rparr>"
  let ?acts = "[KeyDown 1 ?bs None, KeyDown 0 ?bs None]"
  let ?l = "\<lparr>ltype = Text, ltext = [], checked = False, indent = 0\<rparr>"
  have p: "parseContent [nl] = [?l, ?l]"
    by (simp add: parseContent_def parseLine_def startsWith_def)
  have v: "valid_indices (parseContent [nl]) ?acts"
    by (simp add: p handleKeyDown_def)
  from never_empty [of "[nl]" ?acts] v
  obtain d where d: "run (parseContent [nl]) ?acts = Inr d" by blast
  with never_empty [of "[nl]" ?acts d] have "1 \<le> length d" by blast
  with d show "\<exists>d. run (parseContent [nl]) ?acts = Inr d \<and> 1 \<le> length d" by blast
  show "handleKeyDown [?l] 0 ?bs None = Inr ([?l], None)"
    using never_empty [where e = ?bs and l = ?l and el = None] by simp
  have "handle (parseContent [nl]) (KeyDown 1 ?bs None) = Inr ([?l], Some 0)"
    by (simp add: p handleKeyDown_def)
  moreover have "length [?l] < length (parseContent [nl])" by (simp add: p)
  ultimately show "1 < length (parseContent [nl])"
    using never_empty
      [where ls = "parseContent [nl]" and a = "KeyDown 1 ?bs None" and r = "[?l]" and f = "Some 0"]
    by blast
qed

text \<open>
  C9, as stated, fails: ArrowUp with an index past the end raises nothing and asks
  for the focus on the line before.
\<close>

theorem invalid_index_counterexample:
  "\<not> 5 < length [\<lparr>ltype = Text, ltext = ''a'', checked = False, indent = 0\<rparr>]
   \<and> handleKeyDown [\<lparr>ltype = Text, ltext = ''a'', checked = False, indent = 0\<rparr>] 5
        \<lparr>key = ArrowUp, ctrlKey = False, shiftKey = False\<rparr> None
     = Inr ([\<lparr>ltype = Text, ltext = ''a'', checked = False, indent = 0\<rparr>], Some 4)"
  by (simp add: handleKeyDown_def)

text \<open>
  C9, amended. With an index past the end, \<open>toggleCheck\<close>, \<open>updateText\<close> and the Enter,
  Tab and Backspace branches of \<open>handleKeyDown\<close> throw a \<open>TypeError\<close> (there is no
  condition of another name); the other keys throw nothing and commit nothing. In all
  cases the component holds the same array afterwards.
\<close>

theorem invalid_index:
  assumes "length ls \<le> i"
  shows "toggleCheck ls i = Inl TypeError \<and>
         updateText ls i t = Inl TypeError \<and>
         (key e \<in> {Enter, Tab, Backspace} \<longrightarrow> handleKeyDown ls i e el = Inl TypeError) \<and>
         (key e \<notin> {Enter, Tab, Backspace} \<longrightarrow> (\<exists>f. handleKeyDown ls i e el = Inr (ls, f))) \<and>
         (target a = i \<longrightarrow> linesAfter ls (handle ls a) = ls)"
proof -
  have t: "toggleCheck ls i = Inl TypeError" using assms by (simp add: toggleCheck_def)
  have u: "updateText ls i t = Inl TypeError" for t using assms by (simp add: updateText_def)
  have k: "handleKeyDown ls i e el = Inl TypeError" if "key e \<in> {Enter, Tab, Backspace}" for e el
    using assms that by (auto simp: handleKeyDown_def)
  have m: "\<exists>f. handleKeyDown ls i e el = Inr (ls, f)" if "key e \<notin> {Enter, Tab, Backspace}" for e el
    using that by (auto simp: handleKeyDown_def)
  have "linesAfter ls (handle ls a) = ls" if "target a = i"
  proof (cases a)
    case (Toggle j)
    with that t show ?thesis by simp
  next
    case (EditText j s)
    with that u show ?thesis by simp
  next
    case (KeyDown j e' el')
    show ?thesis
    proof (cases "key e' \<in> {Enter, Tab, Backspace}")
      case True
      with KeyDown that k [OF True] show ?thesis by simp
    next
      case False
      from m [OF False] obtain f where "handleKeyDown ls i e' el' = Inr (ls, f)" by blast
      with KeyDown that show ?thesis by simp
    qed
  qed
  with t u k m show ?thesis by blast
qed

theorem invalid_index_witness:
  "toggleCheck [\<lparr>ltype = Todo, ltext = ''a'', checked = False, indent = 0\<rparr>] 1 = Inl TypeError
   \<and> updateText [\<lparr>ltype = Todo, ltext = ''a'', checked = False, indent = 0\<rparr>] 1 ''b''
       = Inl TypeError
   \<and> handleKeyDown [\<lparr>ltype = Todo, ltext = ''a'', checked = False, indent = 0\<rparr>] 1
        \<lparr>key = Enter, ctrlKey = False, shiftKey = False\<rparr> None = Inl TypeError
   \<and> (\<exists>f. handleKeyDown [\<lparr>ltype = Todo, ltext = ''a'', checked = False, indent = 0\<rparr>] 1
        \<lparr>key = ArrowDown, ctrlKey = False, shiftKey = False\<rparr> None
       = Inr ([\<lparr>ltype = Todo, ltext = ''a'', checked = False, indent = 0\<rparr>], f))
   \<and> linesAfter [\<lparr>ltype = Todo, ltext = ''a'', checked = False, indent = 0\<rparr>]
        (handle [\<lparr>ltype = Todo, ltext = ''a'', checked = False, indent = 0\<rparr>] (Toggle 1))
       = [\<lparr>ltype = Todo, ltext = ''a'', checked = False, indent = 0\<rparr>]"
proof -
  let ?ls = "[\<lparr>ltype = Todo, ltext = ''a'', checked = False, indent = 0\<rparr>]"
  have out: "length ?ls \<le> 1" by simp
  from invalid_index [OF out, of "''b''" "\<lparr>key = Enter, ctrlKey = False, shiftKey = False\<rparr>" None
      "Toggle 1"]
  have "toggleCheck ?ls 1 = Inl TypeError" "updateText ?ls 1 ''b'' = Inl TypeError"
    "handleKeyDown ?ls 1 \<lparr>key = Enter, ctrlKey = False, shiftKey = False\<rparr> None = Inl TypeError"
    "linesAfter ?ls (handle ?ls (Toggle 1)) = ?ls"
    by simp_all
  moreover from invalid_index
    [OF out, of _ "\<lparr>key = ArrowDown, ctrlKey = False, shiftKey = False\<rparr>" None]
  have "\<exists>f. handleKeyDown ?ls 1 \<lparr>key = ArrowDown, ctrlKey = False, shiftKey = False\<rparr> None
      = Inr (?ls, f)"
    by simp
  ultimately show ?thesis by blast
qed

lemma changes_only_update: "changes_only ls i (ls[i := l])"
  by (simp add: changes_only_def)

lemma changes_only_refl: "changes_only ls i ls"
  by (simp add: changes_only_def)

text \<open>
  C10. At a valid index, \<open>updateText\<close> (whether it converts the line or not), Tab with
  any modifiers, and Backspace on an empty Todo line return a document of the same
  length that agrees with the old one at every other index. Backspace on an empty
  Todo with \<open>indent > 0\<close> stores the same line with the indent one less, so \<open>checked\<close> is
  kept.
\<close>

theorem single_line_actions:
  assumes "i < length ls"
  shows "(\<exists>r. updateText ls i t = Inr (r, None) \<and> changes_only ls i r) \<and>
         (key e = Tab \<longrightarrow> (\<exists>r. handleKeyDown ls i e el = Inr (r, None) \<and> changes_only ls i r)) \<and>
         (key e = Backspace \<and> ltype (ls ! i) = Todo \<and> ltext (ls ! i) = [] \<longrightarrow>
            (\<exists>r. handleKeyDown ls i e el = Inr (r, Some i) \<and> changes_only ls i r \<and>
                 (0 < indent (ls ! i) \<longrightarrow>
                    r ! i = (ls ! i)\<lparr>indent := indent (ls ! i) - 1\<rparr> \<and>
                    checked (r ! i) = checked (ls ! i))))"
proof (intro conjI impI)
  show "\<exists>r. updateText ls i t = Inr (r, None) \<and> changes_only ls i r"
    using assms by (auto simp: updateText_def Let_def changes_only_update)
  show "\<exists>r. handleKeyDown ls i e el = Inr (r, None) \<and> changes_only ls i r" if "key e = Tab"
    using assms that
    by (auto simp: handleKeyDown_def Let_def changes_only_update changes_only_refl
        split: option.splits)
  show "\<exists>r. handleKeyDown ls i e el = Inr (r, Some i) \<and> changes_only ls i r \<and>
           (0 < indent (ls ! i) \<longrightarrow>
              r ! i = (ls ! i)\<lparr>indent := indent (ls ! i) - 1\<rparr> \<and>
              checked (r ! i) = checked (ls ! i))"
    if "key e = Backspace \<and> ltype (ls ! i) = Todo \<and> ltext (ls ! i) = []"
    using assms that by (auto simp: handleKeyDown_def Let_def changes_only_update)
qed


theorem single_line_actions_witness:
  "(\<exists>r. handleKeyDown
          [\<lparr>ltype = Todo, ltext = [], checked = True, indent = 2\<rparr>,
           \<lparr>ltype = Text, ltext = ''x'', checked = False, indent = 0\<rparr>] 0
          \<lparr>key = Backspace, ctrlKey = False, shiftKey = False\<rparr> None = Inr (r, Some 0)
       \<and> length r = 2
       \<and> r ! 0 = \<lparr>ltype = Todo, ltext = [], checked = True, indent = 1\<rparr>
       \<and> r ! 1 = \<lparr>ltype = Text, ltext = ''x'', checked = False, indent = 0\<rparr>)
   \<and> (\<exists>r. handleKeyDown
          [\<lparr>ltype = Todo, ltext = [], checked = True, indent = 2\<rparr>,
           \<lparr>ltype = Text, ltext = ''x'', checked = False, indent = 0\<rparr>] 0
          \<lparr>key = Tab, ctrlKey = False, shiftKey = True\<rparr> None = Inr (r, None)
       \<and> length r = 2
       \<and> r ! 1 = \<lparr>ltype = Text, ltext = ''x'', checked = False, indent = 0\<rparr>)
   \<and> (\<exists>r. updateText
          [\<lparr>ltype = Todo, ltext = [], checked = True, indent = 2\<rparr>,
           \<lparr>ltype = Text, ltext = ''x'', checked = False, indent = 0\<rparr>] 1 ''- [x] y''
          = Inr (r, None)
       \<and> length r = 2
       \<and> r ! 0 = \<lparr>ltype = Todo, ltext = [], checked = True, indent = 2\<rparr>)"
proof (intro conjI)
  let ?ls = "[\<lparr>ltype = Todo, ltext = [], checked = True, indent = 2\<rparr>,
           \<lparr>ltype = Text, ltext = ''x'', checked = False, indent = 0\<rparr>]"
  show "\<exists>r. handleKeyDown ?ls 0 \<lparr>key = Backspace, ctrlKey = False, shiftKey = False\<rparr> None
          = Inr (r, Some 0)
       \<and> length r = 2
       \<and> r ! 0 = \<lparr>ltype = Todo, ltext = [], checked = True, indent = 1\<rparr>
       \<and> r ! 1 = \<lparr>ltype = Text, ltext = ''x'', checked = False, indent = 0\<rparr>"
    using single_line_actions
      [of 0 ?ls "[]" "\<lparr>key = Backspace, ctrlKey = False, shiftKey = False\<rparr>" None]
    by (auto simp: changes_only_def)
  show "\<exists>r. handleKeyDown ?ls 0 \<lparr>key = Tab, ctrlKey = False, shiftKey = True\<rparr> None
          = Inr (r, None)
       \<and> length r = 2
       \<and> r ! 1 = \<lparr>ltype = Text, ltext = ''x'', checked = False, indent = 0\<rparr>"
    using single_line_actions
      [of 0 ?ls "[]" "\<lparr>key = Tab, ctrlKey = False, shiftKey = True\<rparr>" None]
    by (auto simp: changes_only_def)
  show "\<exists>r. updateText ?ls 1 ''- [x] y'' = Inr (r, None)
       \<and> length r = 2
       \<and> r ! 0 = \<lparr>ltype = Todo, ltext = [], checked = True, indent = 2\<rparr>"
    using single_line_actions
      [of 1 ?ls "''- [x] y''" "\<lparr>key = Tab, ctrlKey = False, shiftKey = True\<rparr>" None]
    by (auto simp: changes_only_def)
qed

end
